theory Spec2Isabelle
  imports Complex_Main
begin

section \<open>Frame geometry generator (orbital\_welding\_visualization.py)\<close>

text \<open>
  Python floats are modelled as exact reals, a three-element \<open>np.array\<close> as a triple.
  Multiplying an array by a scalar (\<open>vec * scale\<close>) multiplies every component.
\<close>

type_synonym vec3 = "real \<times> real \<times> real"

definition vscale3 :: "vec3 \<Rightarrow> real \<Rightarrow> vec3" where
  "vscale3 v s = (case v of (a, b, c) \<Rightarrow> (a * s, b * s, c * s))"

definition vadd3 :: "vec3 \<Rightarrow> vec3 \<Rightarrow> vec3" where
  "vadd3 v w = (case v of (a, b, c) \<Rightarrow> case w of (d, e, f) \<Rightarrow> (a + d, b + e, c + f))"

definition dot3 :: "vec3 \<Rightarrow> vec3 \<Rightarrow> real" where
  "dot3 v w = (case v of (a, b, c) \<Rightarrow> case w of (d, e, f) \<Rightarrow> a * d + b * e + c * f)"

definition norm3 :: "vec3 \<Rightarrow> real" where
  "norm3 v = sqrt (dot3 v v)"

text \<open>\<open>np.deg2rad\<close>: degrees times \<open>pi / 180\<close>.\<close>

definition deg2rad :: "real \<Rightarrow> real" where
  "deg2rad d = d * (pi / 180)"

text \<open>\<open>user_to_mpl\<close>, the nested function of \<open>plot_tool_frame\<close> (and of \<open>main\<close>).\<close>

definition user_to_mpl :: "vec3 \<Rightarrow> vec3" where
  "user_to_mpl vec = (case vec of (v0, v1, v2) \<Rightarrow> (- v0, v2, v1))"

text \<open>The four arrays \<open>plot_tool_frame\<close> builds in user coordinates, from \<open>theta\<close> in radians.\<close>

definition pos_user :: "real \<Rightarrow> real \<Rightarrow> real \<Rightarrow> vec3" where
  "pos_user x_offset radius theta = (x_offset, radius * cos theta, radius * sin theta)"

definition z_tool_user :: "real \<Rightarrow> vec3" where
  "z_tool_user theta = (0, cos theta, sin theta)"

definition x_tool_user :: "real \<Rightarrow> vec3" where
  "x_tool_user theta = (0, - sin theta, cos theta)"

definition y_tool_user :: vec3 where
  "y_tool_user = (1, 0, 0)"

text \<open>
  What \<open>plot_tool_frame\<close> hands to the renderer: the position and the three scaled axes,
  all in render coordinates.
\<close>

record tool_frame =
  pos_mpl :: vec3
  x_tool_mpl :: vec3
  y_tool_mpl :: vec3
  z_tool_mpl :: vec3

definition plot_tool_frame :: "real \<Rightarrow> real \<Rightarrow> real \<Rightarrow> real \<Rightarrow> tool_frame" where
  "plot_tool_frame theta_deg radius scale x_offset =
     (let theta = deg2rad theta_deg in
      \<lparr> pos_mpl = user_to_mpl (pos_user x_offset radius theta),
        x_tool_mpl = vscale3 (user_to_mpl (x_tool_user theta)) scale,
        y_tool_mpl = vscale3 (user_to_mpl y_tool_user) scale,
        z_tool_mpl = vscale3 (user_to_mpl (z_tool_user theta)) scale \<rparr>)"

subsection \<open>Pipe mesh\<close>

text \<open>
  \<open>np.linspace(start, stop, num)\<close> with the default \<open>endpoint=True\<close>: \<open>num\<close> samples
  \<open>start + i * step\<close>, the step being the span over \<open>num - 1\<close>, and the last sample set
  to \<open>stop\<close> when there is more than one.
\<close>

definition linspace :: "real \<Rightarrow> real \<Rightarrow> nat \<Rightarrow> real list" where
  "linspace start stop num =
     (let dv = num - 1;
          delta = stop - start;
          y = (if dv > 0
               then map (\<lambda>i. real i * (delta / real dv) + start) [0..<num]
               else map (\<lambda>i. real i * delta + start) [0..<num])
      in if num > 1 then y[num - 1 := stop] else y)"

text \<open>
  \<open>np.meshgrid(xs, ys)\<close> with the default \<open>indexing='xy'\<close>: two grids with one row per
  element of \<open>ys\<close> and one column per element of \<open>xs\<close>.
\<close>

definition meshgrid :: "real list \<Rightarrow> real list \<Rightarrow> real list list \<times> real list list" where
  "meshgrid xs ys = (map (\<lambda>y. xs) ys, map (\<lambda>y. map (\<lambda>x. y) xs) ys)"

definition grid_map :: "(real \<Rightarrow> real) \<Rightarrow> real list list \<Rightarrow> real list list" where
  "grid_map f g = map (map f) g"

definition create_cylinder ::
  "real \<Rightarrow> real \<Rightarrow> nat \<Rightarrow> real list list \<times> real list list \<times> real list list" where
  "create_cylinder radius height num_points =
     (let theta = linspace 0 (2 * pi) num_points;
          x_pipe = linspace (- height / 2) (height / 2) num_points;
          (Theta, X_user) = meshgrid theta x_pipe;
          Y_user = grid_map (\<lambda>t. radius * cos t) Theta;
          Z_user = grid_map (\<lambda>t. radius * sin t) Theta;
          X_mpl = grid_map uminus X_user;
          Y_mpl = Z_user;
          Z_mpl = Y_user
      in (X_mpl, Y_mpl, Z_mpl))"

section \<open>Matrix utility (inv\_det.py)\<close>

text \<open>
  A two-dimensional \<open>np.array\<close> of floats is a list of rows of exact reals. The script
  calls \<open>np.linalg.inv\<close> and \<open>np.linalg.det\<close>; both are modelled in exact arithmetic.
  \<open>LinAlgError\<close> is the only exception they raise.
\<close>

type_synonym matrix = "real list list"

datatype linalg_error = NotSquare | SingularMatrix

definition is_square :: "matrix \<Rightarrow> bool" where
  "is_square M = list_all (\<lambda>r. length r = length M) M"

definition eye :: "nat \<Rightarrow> matrix" where
  "eye n = map (\<lambda>i. map (\<lambda>j. if i = j then 1 else 0) [0..<n]) [0..<n]"

definition ncols :: "matrix \<Rightarrow> nat" where
  "ncols B = (case B of [] \<Rightarrow> 0 | r # _ \<Rightarrow> length r)"

text \<open>The matrix product, entry \<open>(i, j)\<close> being the sum over \<open>k\<close> of \<open>A[i][k] * B[k][j]\<close>.\<close>

definition matmul :: "matrix \<Rightarrow> matrix \<Rightarrow> matrix" where
  "matmul A B =
     map (\<lambda>r. map (\<lambda>j. sum_list (map (\<lambda>k. r ! k * B ! k ! j) [0..<length B])) [0..<ncols B]) A"

text \<open>The slice \<open>M[:r, :c]\<close>.\<close>

definition slice :: "nat \<Rightarrow> nat \<Rightarrow> matrix \<Rightarrow> matrix" where
  "slice r c M = map (take c) (take r M)"

subsection \<open>Determinant\<close>

text \<open>
  \<open>np.linalg.det\<close> returns the determinant of a square matrix: the cofactor expansion,
  here along the first column. \<open>minor0 i M\<close> is \<open>M\<close> without row \<open>i\<close> and without its
  first column.
\<close>

definition del_row :: "nat \<Rightarrow> matrix \<Rightarrow> matrix" where
  "del_row i M = take i M @ drop (Suc i) M"

definition minor0 :: "nat \<Rightarrow> matrix \<Rightarrow> matrix" where
  "minor0 i M = map tl (del_row i M)"

function det :: "matrix \<Rightarrow> real" where
  "det M = (if M = [] then 1
            else sum_list (map (\<lambda>i. (- 1) ^ i * hd (M ! i) * det (minor0 i M)) [0..<length M]))"
  by pat_completeness auto
termination
  by (relation "measure length") (auto simp: minor0_def del_row_def)

definition linalg_det :: "matrix \<Rightarrow> linalg_error + real" where
  "linalg_det M = (if is_square M then Inr (det M) else Inl NotSquare)"

subsection \<open>Inverse\<close>

text \<open>
  \<open>np.linalg.inv\<close> solves \<open>M X = I\<close> by elimination with row pivoting and raises
  \<open>LinAlgError\<close> when a pivot column holds no nonzero entry, or when the matrix is not
  square. The model eliminates, in exact arithmetic, on the rows of the augmented matrix
  \<open>[M | I]\<close>: for each column the pivot row is found and exchanged into place, scaled to a
  unit pivot, and the column is cleared in every other row.
\<close>

definition vscale :: "real \<Rightarrow> real list \<Rightarrow> real list" where
  "vscale c v = map (\<lambda>x. c * x) v"

definition vsub :: "real list \<Rightarrow> real list \<Rightarrow> real list" where
  "vsub u v = map2 (\<lambda>x y. x - y) u v"

text \<open>The first row at or below \<open>k\<close> whose entry in column \<open>k\<close> is largest in absolute value.\<close>

definition pivot_row :: "nat \<Rightarrow> matrix \<Rightarrow> nat" where
  "pivot_row k M =
     fold (\<lambda>i p. if \<bar>M ! p ! k\<bar> < \<bar>M ! i ! k\<bar> then i else p) [Suc k..<length M] k"

definition swap_rows :: "nat \<Rightarrow> nat \<Rightarrow> matrix \<Rightarrow> matrix" where
  "swap_rows i j M = M[i := M ! j, j := M ! i]"

text \<open>Subtract from every row but row \<open>k\<close> the multiple of row \<open>k\<close> that clears column \<open>k\<close>.\<close>

definition eliminate :: "nat \<Rightarrow> matrix \<Rightarrow> matrix" where
  "eliminate k M =
     map (\<lambda>i. if i = k then M ! i else vsub (M ! i) (vscale (M ! i ! k) (M ! k))) [0..<length M]"

definition gj_step :: "nat \<Rightarrow> matrix \<Rightarrow> matrix option" where
  "gj_step k M =
     (let p = pivot_row k M in
      if M ! p ! k = 0 then None
      else let M1 = swap_rows k p M;
               M2 = M1[k := vscale (1 / (M1 ! k ! k)) (M1 ! k)]
           in Some (eliminate k M2))"

fun gj_loop :: "nat list \<Rightarrow> matrix \<Rightarrow> matrix option" where
  "gj_loop [] M = Some M"
| "gj_loop (k # ks) M = (case gj_step k M of None \<Rightarrow> None | Some M' \<Rightarrow> gj_loop ks M')"

definition augment :: "matrix \<Rightarrow> matrix" where
  "augment M = map2 (\<lambda>r e. r @ e) M (eye (length M))"

definition linalg_inv :: "matrix \<Rightarrow> linalg_error + matrix" where
  "linalg_inv M =
     (if \<not> is_square M then Inl NotSquare
      else case gj_loop [0..<length M] (augment M) of
             None \<Rightarrow> Inl SingularMatrix
           | Some R \<Rightarrow> Inr (map (drop (length M)) R))"

text \<open>The three matrices of the script.\<close>

definition H2 :: matrix where
  "H2 = [[1, 0, 0, - 5],
         [0, - 1, 0, 10],
         [0, 0, - 1, 8],
         [0, 0, 0, 1]]"

definition R :: matrix where
  "R = slice 3 3 H2"

definition R_new :: matrix where
  "R_new = [[0, - 1, 0],
            [- 1, 0, 0],
            [0, 0, 1]]"

text \<open>
  The script computes, for each matrix, the inverse and the determinant and prints them; an
  exception raised by either call is not caught and ends the script. For \<open>H2\<close> and \<open>R\<close>
  the inverse comes first, for \<open>R_new\<close> the determinant.
\<close>

definition inv_then_det :: "matrix \<Rightarrow> linalg_error + matrix \<times> real" where
  "inv_then_det M =
     (case linalg_inv M of
        Inl e \<Rightarrow> Inl e
      | Inr Mi \<Rightarrow> (case linalg_det M of Inl e \<Rightarrow> Inl e | Inr d \<Rightarrow> Inr (Mi, d)))"

definition det_then_inv :: "matrix \<Rightarrow> linalg_error + matrix \<times> real" where
  "det_then_inv M =
     (case linalg_det M of
        Inl e \<Rightarrow> Inl e
      | Inr d \<Rightarrow> (case linalg_inv M of Inl e \<Rightarrow> Inl e | Inr Mi \<Rightarrow> Inr (Mi, d)))"

definition script :: "linalg_error + (matrix \<times> real) \<times> (matrix \<times> real) \<times> (matrix \<times> real)" where
  "script =
     (case inv_then_det H2 of
        Inl e \<Rightarrow> Inl e
      | Inr a \<Rightarrow> (case inv_then_det R of
          Inl e \<Rightarrow> Inl e
        | Inr b \<Rightarrow> (case det_then_inv R_new of Inl e \<Rightarrow> Inl e | Inr c \<Rightarrow> Inr (a, b, c))))"

subsection \<open>Notions used to state and prove the properties of the elimination\<close>

text \<open>
  An augmented matrix of \<open>n\<close> rows of length \<open>2 n\<close>; its left block; the first \<open>k\<close> columns
  being unit vectors; a matrix \<open>X\<close> solving the system the augmented rows stand for.
\<close>

definition aug_ok :: "nat \<Rightarrow> matrix \<Rightarrow> bool" where
  "aug_ok n A = (length A = n \<and> (\<forall>i<n. length (A ! i) = 2 * n))"

definition left_block :: "nat \<Rightarrow> matrix \<Rightarrow> matrix" where
  "left_block n A = map (take n) A"

definition unit_cols :: "nat \<Rightarrow> nat \<Rightarrow> matrix \<Rightarrow> bool" where
  "unit_cols k n A = (\<forall>i<n. \<forall>c<k. A ! i ! c = (if i = c then 1 else 0))"

definition row_eq :: "nat \<Rightarrow> real list \<Rightarrow> matrix \<Rightarrow> bool" where
  "row_eq n r X = (\<forall>j<n. (\<Sum>l<n. r ! l * X ! l ! j) = r ! (n + j))"

definition solves :: "nat \<Rightarrow> matrix \<Rightarrow> matrix \<Rightarrow> bool" where
  "solves n A X = (\<forall>i<n. row_eq n (A ! i) X)"

text \<open>Exchange of two neighbouring rows, and the elimination carried out on the rows below \<open>m\<close> only.\<close>

definition swap_adj :: "nat \<Rightarrow> matrix \<Rightarrow> matrix" where
  "swap_adj k M = M[k := M ! Suc k, Suc k := M ! k]"

definition elim_upto :: "nat \<Rightarrow> nat \<Rightarrow> matrix \<Rightarrow> matrix" where
  "elim_upto m k M =
     map (\<lambda>i. if i = k \<or> m \<le> i then M ! i else vsub (M ! i) (vscale (M ! i ! k) (M ! k)))
       [0..<length M]"

declare det.simps [simp del]

section \<open>Properties of the frame geometry\<close>

lemma linspace_length: "length (linspace a b n) = n"
  by (simp add: linspace_def Let_def)

lemma linspace_nth:
  assumes "2 \<le> n" and "i < n"
  shows "linspace a b n ! i = a + real i * ((b - a) / real (n - 1))"
proof (cases "i = n - 1")
  case True
  with assms show ?thesis
    by (simp add: linspace_def Let_def)
next
  case False
  with assms show ?thesis
    by (simp add: linspace_def Let_def)
qed

lemma meshgrid_nth:
  assumes "i < length ys" and "j < length xs"
  shows "fst (meshgrid xs ys) ! i ! j = xs ! j" and "snd (meshgrid xs ys) ! i ! j = ys ! i"
  using assms by (simp_all add: meshgrid_def)

lemma norm3_sq: "norm3 v = sqrt ((fst v)\<^sup>2 + (fst (snd v))\<^sup>2 + (snd (snd v))\<^sup>2)"
  by (cases v) (simp add: norm3_def dot3_def power2_eq_square)

lemma sin_cos_squares: "sin t * sin t + cos t * cos t = (1::real)"
  using sin_cos_squared_add [of t] by (simp add: power2_eq_square)

lemma norm3_scaled_unit:
  assumes "a * a + b * b + c * c = 1"
  shows "norm3 (a * s, b * s, c * s) = \<bar>s\<bar>"
proof -
  have "a * s * (a * s) + b * s * (b * s) + c * s * (c * s) = (a * a + b * b + c * c) * (s * s)"
    by (simp add: algebra_simps)
  also have "\<dots> = s\<^sup>2"
    using assms by (simp add: power2_eq_square)
  finally show ?thesis
    by (simp add: norm3_def dot3_def)
qed

text \<open>
  C3. For every waypoint angle from 0 up to (not including) 360 degrees, the tool axes
  X-tool = (0, -sin, cos), Y-tool = (1, 0, 0) and Z-tool = (0, cos, sin) computed by
  \<open>plot_tool_frame\<close> in user coordinates are pairwise orthogonal and each of length one.
\<close>

theorem tool_axes_orthonormal:
  assumes "0 \<le> theta_deg" and "theta_deg < 360"
  shows "dot3 (x_tool_user (deg2rad theta_deg)) y_tool_user = 0
       \<and> dot3 (x_tool_user (deg2rad theta_deg)) (z_tool_user (deg2rad theta_deg)) = 0
       \<and> dot3 y_tool_user (z_tool_user (deg2rad theta_deg)) = 0
       \<and> norm3 (x_tool_user (deg2rad theta_deg)) = 1
       \<and> norm3 y_tool_user = 1
       \<and> norm3 (z_tool_user (deg2rad theta_deg)) = 1"
  by (simp add: dot3_def norm3_def x_tool_user_def y_tool_user_def z_tool_user_def
      sin_cos_squares add.commute)

theorem tool_axes_orthonormal_witness:
  "(0::real) \<le> 90 \<and> (90::real) < 360
   \<and> dot3 (x_tool_user (deg2rad 90)) y_tool_user = 0
   \<and> dot3 (x_tool_user (deg2rad 90)) (z_tool_user (deg2rad 90)) = 0
   \<and> dot3 y_tool_user (z_tool_user (deg2rad 90)) = 0
   \<and> norm3 (x_tool_user (deg2rad 90)) = 1
   \<and> norm3 y_tool_user = 1
   \<and> norm3 (z_tool_user (deg2rad 90)) = 1"
  using tool_axes_orthonormal [of 90] by simp

text \<open>
  C4. The remap from user to render coordinates, (x, y, z) to (-x, z, y), is an involution:
  applied twice it gives back the vector it started from.
\<close>

theorem user_to_mpl_involution: "user_to_mpl (user_to_mpl v) = v"
  by (cases v) (simp add: user_to_mpl_def)

text \<open>
  C9, as the code has it. The remap preserves dot products and norms and commutes with
  scaling and addition, so the remapped and scaled tool axes of \<open>plot_tool_frame\<close> are
  pairwise orthogonal; each has length \<open>\<bar>scale\<bar>\<close>, which is \<open>scale\<close> itself only for a
  scale that is not negative.
\<close>

theorem user_to_mpl_orthogonal:
  "dot3 (user_to_mpl v) (user_to_mpl w) = dot3 v w
   \<and> norm3 (user_to_mpl v) = norm3 v
   \<and> user_to_mpl (vscale3 v s) = vscale3 (user_to_mpl v) s
   \<and> user_to_mpl (vadd3 v w) = vadd3 (user_to_mpl v) (user_to_mpl w)
   \<and> dot3 (x_tool_mpl (plot_tool_frame theta_deg radius scale x_offset))
           (y_tool_mpl (plot_tool_frame theta_deg radius scale x_offset)) = 0
   \<and> dot3 (x_tool_mpl (plot_tool_frame theta_deg radius scale x_offset))
           (z_tool_mpl (plot_tool_frame theta_deg radius scale x_offset)) = 0
   \<and> dot3 (y_tool_mpl (plot_tool_frame theta_deg radius scale x_offset))
           (z_tool_mpl (plot_tool_frame theta_deg radius scale x_offset)) = 0
   \<and> norm3 (x_tool_mpl (plot_tool_frame theta_deg radius scale x_offset)) = \<bar>scale\<bar>
   \<and> norm3 (y_tool_mpl (plot_tool_frame theta_deg radius scale x_offset)) = \<bar>scale\<bar>
   \<and> norm3 (z_tool_mpl (plot_tool_frame theta_deg radius scale x_offset)) = \<bar>scale\<bar>"
proof -
  have lin: "dot3 (user_to_mpl v) (user_to_mpl w) = dot3 v w
      \<and> norm3 (user_to_mpl v) = norm3 v
      \<and> user_to_mpl (vscale3 v s) = vscale3 (user_to_mpl v) s
      \<and> user_to_mpl (vadd3 v w) = vadd3 (user_to_mpl v) (user_to_mpl w)"
    by (cases v; cases w)
       (simp add: user_to_mpl_def dot3_def norm3_def vscale3_def vadd3_def add.commute)
  have orth: "dot3 (x_tool_mpl (plot_tool_frame theta_deg radius scale x_offset))
           (y_tool_mpl (plot_tool_frame theta_deg radius scale x_offset)) = 0
      \<and> dot3 (x_tool_mpl (plot_tool_frame theta_deg radius scale x_offset))
           (z_tool_mpl (plot_tool_frame theta_deg radius scale x_offset)) = 0
      \<and> dot3 (y_tool_mpl (plot_tool_frame theta_deg radius scale x_offset))
           (z_tool_mpl (plot_tool_frame theta_deg radius scale x_offset)) = 0"
    by (simp add: plot_tool_frame_def Let_def user_to_mpl_def vscale3_def dot3_def
        x_tool_user_def y_tool_user_def z_tool_user_def)
  have nx: "norm3 (x_tool_mpl (plot_tool_frame theta_deg radius scale x_offset)) = \<bar>scale\<bar>"
    unfolding plot_tool_frame_def Let_def user_to_mpl_def vscale3_def x_tool_user_def
    using norm3_scaled_unit [of "- 0" "cos (deg2rad theta_deg)" "- sin (deg2rad theta_deg)" scale]
    by (simp add: sin_cos_squares add.commute)
  have ny: "norm3 (y_tool_mpl (plot_tool_frame theta_deg radius scale x_offset)) = \<bar>scale\<bar>"
    unfolding plot_tool_frame_def Let_def user_to_mpl_def vscale3_def y_tool_user_def
    using norm3_scaled_unit [of "- 1" 0 0 scale] by simp
  have nz: "norm3 (z_tool_mpl (plot_tool_frame theta_deg radius scale x_offset)) = \<bar>scale\<bar>"
    unfolding plot_tool_frame_def Let_def user_to_mpl_def vscale3_def z_tool_user_def
    using norm3_scaled_unit [of "- 0" "sin (deg2rad theta_deg)" "cos (deg2rad theta_deg)" scale]
    by (simp add: sin_cos_squares)
  from lin orth nx ny nz show ?thesis by blast
qed

text \<open>
  C9 as the claim words it fails for a negative scale: with scale \<open>-1\<close> the X-tool arrow
  has length 1, not \<open>-1\<close>.
\<close>

theorem scaled_axis_length_counterexample:
  "norm3 (x_tool_mpl (plot_tool_frame 0 100 (- 1) (- 80))) \<noteq> - 1"
  by (simp add: plot_tool_frame_def Let_def user_to_mpl_def vscale3_def x_tool_user_def
      deg2rad_def norm3_def dot3_def)

text \<open>
  C10. The waypoint position in user coordinates is the point \<open>(x_offset, 0, 0)\<close> of the pipe
  axis plus \<open>radius\<close> times the Z-tool axis, which has length one: the position lies in the
  plane \<open>x = x_offset\<close> on the circle of that radius about the axis.
\<close>

theorem waypoint_on_circle:
  "pos_user x_offset radius (deg2rad theta_deg)
     = vadd3 (x_offset, 0, 0) (vscale3 (z_tool_user (deg2rad theta_deg)) radius)
   \<and> fst (pos_user x_offset radius (deg2rad theta_deg)) = x_offset
   \<and> (fst (snd (pos_user x_offset radius (deg2rad theta_deg))))\<^sup>2
       + (snd (snd (pos_user x_offset radius (deg2rad theta_deg))))\<^sup>2 = radius\<^sup>2
   \<and> norm3 (z_tool_user (deg2rad theta_deg)) = 1
   \<and> pos_mpl (plot_tool_frame theta_deg radius scale x_offset)
       = user_to_mpl (pos_user x_offset radius (deg2rad theta_deg))"
proof -
  have "(radius * cos t)\<^sup>2 + (radius * sin t)\<^sup>2 = radius\<^sup>2" for t
  proof -
    have "(radius * cos t)\<^sup>2 + (radius * sin t)\<^sup>2 = radius\<^sup>2 * ((sin t)\<^sup>2 + (cos t)\<^sup>2)"
      by (simp only: power_mult_distrib distrib_left add.commute)
    then show ?thesis by simp
  qed
  then show ?thesis
    by (simp add: pos_user_def vadd3_def vscale3_def z_tool_user_def norm3_def dot3_def
        plot_tool_frame_def Let_def sin_cos_squares add.commute mult.commute)
qed

text \<open>
  C7. For a positive radius and length and at least two samples, \<open>create_cylinder\<close> returns
  three grids of \<open>n\<close> rows of \<open>n\<close> entries; row \<open>i\<close> belongs to the longitudinal sample
  \<open>x = -L/2 + i L/(n-1)\<close>, column \<open>j\<close> to the angle \<open>j 2 pi/(n-1)\<close>, the samples run from
  \<open>-L/2\<close> to \<open>L/2\<close> and from \<open>0\<close> to \<open>2 pi\<close>, and the grid point is the remap of
  \<open>(x, r cos, r sin)\<close>.
\<close>

theorem create_cylinder_grid:
  assumes "0 < r" and "0 < L" and "2 \<le> n" and "i < n" and "j < n"
  shows "case create_cylinder r L n of (X, Y, Z) \<Rightarrow>
           length X = n \<and> length Y = n \<and> length Z = n
         \<and> length (X ! i) = n \<and> length (Y ! i) = n \<and> length (Z ! i) = n
         \<and> (X ! i ! j, Y ! i ! j, Z ! i ! j)
             = user_to_mpl (- L / 2 + real i * (L / real (n - 1)),
                            r * cos (real j * (2 * pi / real (n - 1))),
                            r * sin (real j * (2 * pi / real (n - 1))))
         \<and> linspace (- L / 2) (L / 2) n ! 0 = - L / 2
         \<and> linspace (- L / 2) (L / 2) n ! (n - 1) = L / 2
         \<and> linspace 0 (2 * pi) n ! 0 = 0
         \<and> linspace 0 (2 * pi) n ! (n - 1) = 2 * pi"
proof -
  have x: "linspace (- L / 2) (L / 2) n ! i = - L / 2 + real i * (L / real (n - 1))"
    using assms linspace_nth [of n i "- L / 2" "L / 2"] by simp
  have t: "linspace 0 (2 * pi) n ! j = real j * (2 * pi / real (n - 1))"
    using assms linspace_nth [of n j 0 "2 * pi"] by simp
  have e: "linspace a b n ! 0 = a" "linspace a b n ! (n - 1) = b" for a b
    using assms by (simp_all add: linspace_def Let_def)
  show ?thesis
    using assms x t e
    by (simp add: create_cylinder_def Let_def meshgrid_def grid_map_def linspace_length
        user_to_mpl_def)
qed

theorem create_cylinder_grid_witness:
  "(0::real) < 1 \<and> (0::real) < 2 \<and> (2::nat) \<le> 2 \<and> (1::nat) < 2 \<and> (0::nat) < 2
   \<and> (case create_cylinder 1 2 2 of (X, Y, Z) \<Rightarrow>
           length X = 2 \<and> length Y = 2 \<and> length Z = 2
         \<and> length (X ! 1) = 2 \<and> length (Y ! 1) = 2 \<and> length (Z ! 1) = 2
         \<and> (X ! 1 ! 0, Y ! 1 ! 0, Z ! 1 ! 0) = (- 1, 0, 1))"
  using create_cylinder_grid [of 1 2 2 1 0]
  by (simp add: user_to_mpl_def split: prod.splits)

section \<open>The determinant under row operations\<close>

lemma det_Nil: "det [] = 1"
  by (simp add: det.simps)

lemma det_sum:
  assumes "M \<noteq> []"
  shows "det M = (\<Sum>i<length M. (- 1) ^ i * hd (M ! i) * det (minor0 i M))"
proof -
  have "det M = sum_list (map (\<lambda>i. (- 1) ^ i * hd (M ! i) * det (minor0 i M)) [0..<length M])"
    using assms by (subst det.simps) simp
  also have "\<dots> = (\<Sum>i\<in>set [0..<length M]. (- 1) ^ i * hd (M ! i) * det (minor0 i M))"
    by (rule interv_sum_list_conv_sum_set_nat)
  finally show ?thesis
    by (simp add: lessThan_atLeast0)
qed

lemma length_del_row: "i < length M \<Longrightarrow> length (del_row i M) = length M - 1"
  by (simp add: del_row_def)

lemma length_minor0: "i < length M \<Longrightarrow> length (minor0 i M) = length M - 1"
  by (simp add: minor0_def length_del_row)

lemma nth_del_row:
  assumes "i < length M" and "j < length M - 1"
  shows "del_row i M ! j = (if j < i then M ! j else M ! Suc j)"
  using assms by (auto simp: del_row_def nth_append min_def)

lemma del_row_update_same: "del_row i (M[i := r]) = del_row i M"
  by (simp add: del_row_def)

lemma del_row_update_below:
  assumes "k < i" and "i < length M"
  shows "del_row i (M[k := r]) = (del_row i M)[k := r]"
proof (rule nth_equalityI)
  show "length (del_row i (M[k := r])) = length ((del_row i M)[k := r])"
    using assms by (simp add: length_del_row)
next
  fix j assume "j < length (del_row i (M[k := r]))"
  then have j: "j < length M - 1" using assms by (simp add: length_del_row)
  then show "del_row i (M[k := r]) ! j = (del_row i M)[k := r] ! j"
    using assms by (auto simp: nth_del_row length_del_row nth_list_update)
qed

lemma del_row_update_above:
  assumes "i < k" and "k < length M"
  shows "del_row i (M[k := r]) = (del_row i M)[k - 1 := r]"
proof (rule nth_equalityI)
  show "length (del_row i (M[k := r])) = length ((del_row i M)[k - 1 := r])"
    using assms by (simp add: length_del_row)
next
  fix j assume "j < length (del_row i (M[k := r]))"
  then have j: "j < length M - 1" using assms by (simp add: length_del_row)
  then show "del_row i (M[k := r]) ! j = (del_row i M)[k - 1 := r] ! j"
    using assms by (auto simp: nth_del_row length_del_row nth_list_update)
qed

lemma minor0_update_same: "minor0 i (M[i := r]) = minor0 i M"
  by (simp add: minor0_def del_row_update_same)

lemma minor0_update_below:
  "k < i \<Longrightarrow> i < length M \<Longrightarrow> minor0 i (M[k := r]) = (minor0 i M)[k := tl r]"
  by (simp add: minor0_def del_row_update_below map_update)

lemma minor0_update_above:
  "i < k \<Longrightarrow> k < length M \<Longrightarrow> minor0 i (M[k := r]) = (minor0 i M)[k - 1 := tl r]"
  by (simp add: minor0_def del_row_update_above map_update)

lemma hd_vsub_vscale:
  "u \<noteq> [] \<Longrightarrow> v \<noteq> [] \<Longrightarrow> hd (vsub u (vscale c v)) = hd u - c * hd v"
  by (cases u; cases v) (simp_all add: vsub_def vscale_def)

lemma tl_vsub_vscale: "tl (vsub u (vscale c v)) = vsub (tl u) (vscale c (tl v))"
  by (cases u; cases v) (simp_all add: vsub_def vscale_def)

lemma hd_vscale: "u \<noteq> [] \<Longrightarrow> hd (vscale c u) = c * hd u"
  by (cases u) (simp_all add: vscale_def)

lemma tl_vscale: "tl (vscale c u) = vscale c (tl u)"
  by (cases u) (simp_all add: vscale_def)

text \<open>The determinant is linear in each row.\<close>

lemma det_row_sub:
  assumes "k < length M" and "length M \<le> length u" and "length M \<le> length v"
  shows "det (M[k := vsub u (vscale c v)]) = det (M[k := u]) - c * det (M[k := v])"
  using assms
proof (induction "length M" arbitrary: M k u v)
  case 0
  then show ?case by simp
next
  case (Suc n)
  let ?w = "vsub u (vscale c v)"
  let ?T = "\<lambda>r i. (- 1) ^ i * hd (M[k := r] ! i) * det (minor0 i (M[k := r]))"
  have ne: "u \<noteq> []" "v \<noteq> []" using Suc.prems Suc.hyps(2) by auto
  have neM: "M[k := r] \<noteq> []" for r using Suc.hyps(2) by auto
  have tm: "?T ?w i = ?T u i - c * ?T v i" if i: "i < length M" for i
  proof (cases "i = k")
    case True
    with i ne show ?thesis
      by (simp add: minor0_update_same hd_vsub_vscale algebra_simps)
  next
    case False
    define k' where "k' = (if k < i then k else k - 1)"
    have upd: "minor0 i (M[k := r]) = (minor0 i M)[k' := tl r]" for r
      using False i Suc.prems(1) by (auto simp: k'_def minor0_update_below minor0_update_above)
    have len: "n = length (minor0 i M)"
      using i Suc.hyps(2) by (simp add: length_minor0)
    have k': "k' < length (minor0 i M)"
      using False i Suc.prems(1) by (auto simp: k'_def length_minor0)
    have ih: "det ((minor0 i M)[k' := vsub (tl u) (vscale c (tl v))])
          = det ((minor0 i M)[k' := tl u]) - c * det ((minor0 i M)[k' := tl v])"
      using Suc.hyps(1) [OF len k'] Suc.prems i by (simp add: length_minor0)
    from False i show ?thesis
      by (simp add: upd tl_vsub_vscale ih right_diff_distrib)
  qed
  have "det (M[k := ?w]) = (\<Sum>i<length M. ?T ?w i)"
    using det_sum [OF neM, of ?w] by simp
  also have "\<dots> = (\<Sum>i<length M. ?T u i - c * ?T v i)"
    by (rule sum.cong) (simp_all add: tm)
  also have "\<dots> = (\<Sum>i<length M. ?T u i) - c * (\<Sum>i<length M. ?T v i)"
    by (simp add: sum_subtractf sum_distrib_left)
  also have "(\<Sum>i<length M. ?T u i) = det (M[k := u])"
    using det_sum [OF neM, of u] by simp
  also have "(\<Sum>i<length M. ?T v i) = det (M[k := v])"
    using det_sum [OF neM, of v] by simp
  finally show ?case .
qed

lemma det_row_scale:
  assumes "k < length M" and "length M \<le> length u"
  shows "det (M[k := vscale c u]) = c * det (M[k := u])"
  using assms
proof (induction "length M" arbitrary: M k u)
  case 0
  then show ?case by simp
next
  case (Suc n)
  let ?T = "\<lambda>r i. (- 1) ^ i * hd (M[k := r] ! i) * det (minor0 i (M[k := r]))"
  have ne: "u \<noteq> []" using Suc.prems Suc.hyps(2) by auto
  have neM: "M[k := r] \<noteq> []" for r using Suc.hyps(2) by auto
  have tm: "?T (vscale c u) i = c * ?T u i" if i: "i < length M" for i
  proof (cases "i = k")
    case True
    with i ne show ?thesis
      by (simp add: minor0_update_same hd_vscale)
  next
    case False
    define k' where "k' = (if k < i then k else k - 1)"
    have upd: "minor0 i (M[k := r]) = (minor0 i M)[k' := tl r]" for r
      using False i Suc.prems(1) by (auto simp: k'_def minor0_update_below minor0_update_above)
    have len: "n = length (minor0 i M)"
      using i Suc.hyps(2) by (simp add: length_minor0)
    have k': "k' < length (minor0 i M)"
      using False i Suc.prems(1) by (auto simp: k'_def length_minor0)
    have ih: "det ((minor0 i M)[k' := vscale c (tl u)]) = c * det ((minor0 i M)[k' := tl u])"
      using Suc.hyps(1) [OF len k'] Suc.prems i by (simp add: length_minor0)
    from False i show ?thesis
      by (simp add: upd tl_vscale ih)
  qed
  have "det (M[k := vscale c u]) = (\<Sum>i<length M. ?T (vscale c u) i)"
    using det_sum [OF neM, of "vscale c u"] by simp
  also have "\<dots> = (\<Sum>i<length M. c * ?T u i)"
    by (rule sum.cong) (simp_all add: tm)
  also have "\<dots> = c * (\<Sum>i<length M. ?T u i)"
    by (simp add: sum_distrib_left)
  also have "(\<Sum>i<length M. ?T u i) = det (M[k := u])"
    using det_sum [OF neM, of u] by simp
  finally show ?case .
qed

text \<open>Exchanging two neighbouring rows changes the sign.\<close>

lemma length_swap_adj: "length (swap_adj k M) = length M"
  by (simp add: swap_adj_def)

lemma nth_swap_adj:
  "Suc k < length M \<Longrightarrow> i < length M \<Longrightarrow>
   swap_adj k M ! i = (if i = k then M ! Suc k else if i = Suc k then M ! k else M ! i)"
  by (simp add: swap_adj_def nth_list_update)

lemma map_swap_adj: "Suc k < length M \<Longrightarrow> map f (swap_adj k M) = swap_adj k (map f M)"
  by (simp add: swap_adj_def map_update)

lemma del_row_swap_adj_below:
  assumes "Suc k < length M" and "i < k"
  shows "del_row i (swap_adj k M) = swap_adj (k - 1) (del_row i M)"
proof (rule nth_equalityI)
  show "length (del_row i (swap_adj k M)) = length (swap_adj (k - 1) (del_row i M))"
    using assms by (simp add: length_del_row length_swap_adj)
next
  fix j assume "j < length (del_row i (swap_adj k M))"
  then have j: "j < length M - 1" using assms by (simp add: length_del_row length_swap_adj)
  then show "del_row i (swap_adj k M) ! j = swap_adj (k - 1) (del_row i M) ! j"
    using assms by (auto simp: nth_del_row length_del_row length_swap_adj nth_swap_adj less_Suc_eq)
qed

lemma del_row_swap_adj_above:
  assumes "i < length M" and "Suc k < i"
  shows "del_row i (swap_adj k M) = swap_adj k (del_row i M)"
proof (rule nth_equalityI)
  show "length (del_row i (swap_adj k M)) = length (swap_adj k (del_row i M))"
    using assms by (simp add: length_del_row length_swap_adj)
next
  fix j assume "j < length (del_row i (swap_adj k M))"
  then have j: "j < length M - 1" using assms by (simp add: length_del_row length_swap_adj)
  then show "del_row i (swap_adj k M) ! j = swap_adj k (del_row i M) ! j"
    using assms by (auto simp: nth_del_row length_del_row length_swap_adj nth_swap_adj less_Suc_eq)
qed

lemma del_row_swap_adj_fst:
  assumes "Suc k < length M"
  shows "del_row k (swap_adj k M) = del_row (Suc k) M"
proof (rule nth_equalityI)
  show "length (del_row k (swap_adj k M)) = length (del_row (Suc k) M)"
    using assms by (simp add: length_del_row length_swap_adj)
next
  fix j assume "j < length (del_row k (swap_adj k M))"
  then have j: "j < length M - 1" using assms by (simp add: length_del_row length_swap_adj)
  then show "del_row k (swap_adj k M) ! j = del_row (Suc k) M ! j"
    using assms by (auto simp: nth_del_row length_del_row length_swap_adj nth_swap_adj less_Suc_eq)
qed

lemma del_row_swap_adj_snd:
  assumes "Suc k < length M"
  shows "del_row (Suc k) (swap_adj k M) = del_row k M"
proof (rule nth_equalityI)
  show "length (del_row (Suc k) (swap_adj k M)) = length (del_row k M)"
    using assms by (simp add: length_del_row length_swap_adj)
next
  fix j assume "j < length (del_row (Suc k) (swap_adj k M))"
  then have j: "j < length M - 1" using assms by (simp add: length_del_row length_swap_adj)
  then show "del_row (Suc k) (swap_adj k M) ! j = del_row k M ! j"
    using assms by (auto simp: nth_del_row length_del_row length_swap_adj nth_swap_adj less_Suc_eq)
qed

lemma minor0_swap_adj_below:
  "Suc k < length M \<Longrightarrow> i < k \<Longrightarrow> minor0 i (swap_adj k M) = swap_adj (k - 1) (minor0 i M)"
  by (simp add: minor0_def del_row_swap_adj_below map_swap_adj length_del_row)

lemma minor0_swap_adj_above:
  "i < length M \<Longrightarrow> Suc k < i \<Longrightarrow> minor0 i (swap_adj k M) = swap_adj k (minor0 i M)"
  by (simp add: minor0_def del_row_swap_adj_above map_swap_adj length_del_row)

lemma sum_two_out:
  fixes f :: "nat \<Rightarrow> real"
  assumes "Suc k < n"
  shows "(\<Sum>i<n. f i) = f k + f (Suc k) + (\<Sum>i\<in>{..<n} - {k, Suc k}. f i)"
proof -
  have "(\<Sum>i<n. f i) = f k + (\<Sum>i\<in>{..<n} - {k}. f i)"
    using assms sum.remove [of "{..<n}" k f] by simp
  also have "(\<Sum>i\<in>{..<n} - {k}. f i) = f (Suc k) + (\<Sum>i\<in>{..<n} - {k} - {Suc k}. f i)"
    using assms sum.remove [of "{..<n} - {k}" "Suc k" f] by simp
  also have "{..<n} - {k} - {Suc k} = {..<n} - {k, Suc k}"
    by auto
  finally show ?thesis by simp
qed

lemma det_swap_adj:
  assumes "Suc k < length M"
  shows "det (swap_adj k M) = - det M"
  using assms
proof (induction "length M" arbitrary: M k)
  case 0
  then show ?case by simp
next
  case (Suc n)
  let ?S = "swap_adj k M"
  let ?T = "\<lambda>N i. (- 1) ^ i * hd (N ! i) * det (minor0 i N)"
  have neM: "M \<noteq> []" "?S \<noteq> []" using Suc.hyps(2) by (auto simp: swap_adj_def)
  have other: "?T ?S i = - ?T M i" if i: "i < length M" "i \<noteq> k" "i \<noteq> Suc k" for i
  proof (cases "i < k")
    case True
    have len: "n = length (minor0 i M)"
      using i Suc.hyps(2) by (simp add: length_minor0)
    have "Suc (k - 1) < length (minor0 i M)"
      using True Suc.prems i by (simp add: length_minor0)
    from Suc.hyps(1) [OF len this] True Suc.prems i show ?thesis
      by (simp add: minor0_swap_adj_below nth_swap_adj)
  next
    case False
    with i have gt: "Suc k < i" by simp
    have len: "n = length (minor0 i M)"
      using i Suc.hyps(2) by (simp add: length_minor0)
    have "Suc k < length (minor0 i M)"
      using gt i by (simp add: length_minor0)
    from Suc.hyps(1) [OF len this] gt Suc.prems i show ?thesis
      by (simp add: minor0_swap_adj_above nth_swap_adj)
  qed
  have fst: "?T ?S k = - ?T M (Suc k)"
    using Suc.prems by (simp add: minor0_def del_row_swap_adj_fst nth_swap_adj)
  have snd: "?T ?S (Suc k) = - ?T M k"
    using Suc.prems by (simp add: minor0_def del_row_swap_adj_snd nth_swap_adj)
  have "det ?S = (\<Sum>i<length M. ?T ?S i)"
    using det_sum [OF neM(2)] by (simp add: length_swap_adj)
  also have "\<dots> = ?T ?S k + ?T ?S (Suc k) + (\<Sum>i\<in>{..<length M} - {k, Suc k}. ?T ?S i)"
    using Suc.prems by (rule sum_two_out)
  also have "(\<Sum>i\<in>{..<length M} - {k, Suc k}. ?T ?S i)
             = (\<Sum>i\<in>{..<length M} - {k, Suc k}. - ?T M i)"
    by (rule sum.cong) (simp_all add: other)
  also have "?T ?S k + ?T ?S (Suc k) + (\<Sum>i\<in>{..<length M} - {k, Suc k}. - ?T M i)
             = - (?T M k + ?T M (Suc k) + (\<Sum>i\<in>{..<length M} - {k, Suc k}. ?T M i))"
    unfolding fst snd sum_negf by simp
  also have "?T M k + ?T M (Suc k) + (\<Sum>i\<in>{..<length M} - {k, Suc k}. ?T M i)
             = (\<Sum>i<length M. ?T M i)"
    using Suc.prems by (rule sum_two_out [symmetric])
  also have "\<dots> = det M"
    using det_sum [OF neM(1)] by simp
  finally show ?case .
qed

text \<open>A matrix with two equal rows has determinant zero.\<close>

lemma det_equal_rows:
  assumes "i < j" and "j < length M" and "M ! i = M ! j"
  shows "det M = 0"
  using assms
proof (induction "j - i" arbitrary: j M)
  case 0
  then show ?case by simp
next
  case (Suc d)
  show ?case
  proof (cases "j = Suc i")
    case True
    with Suc.prems have "swap_adj i M = M"
      by (intro nth_equalityI) (auto simp: length_swap_adj nth_swap_adj)
    moreover have "det (swap_adj i M) = - det M"
      using True Suc.prems by (simp add: det_swap_adj)
    ultimately show ?thesis by simp
  next
    case False
    with Suc.prems Suc.hyps(2) obtain j' where j': "j = Suc j'" "i < j'"
      by (cases j) auto
    let ?S = "swap_adj j' M"
    have "det ?S = 0"
    proof (rule Suc.hyps(1))
      show "d = j' - i" using Suc.hyps(2) j' by simp
      show "i < j'" by (rule j')
      show "j' < length ?S" using Suc.prems j' by (simp add: length_swap_adj)
      show "?S ! i = ?S ! j'" using Suc.prems j' by (simp add: nth_swap_adj)
    qed
    moreover have "det ?S = - det M"
      using Suc.prems j' by (simp add: det_swap_adj)
    ultimately show ?thesis by simp
  qed
qed

lemma det_equal_rows':
  assumes "i \<noteq> j" and "i < length M" and "j < length M" and "M ! i = M ! j"
  shows "det M = 0"
proof (cases "i < j")
  case True
  with assms show ?thesis by (simp add: det_equal_rows)
next
  case False
  with assms have "j < i" by simp
  with assms show ?thesis using det_equal_rows [of j i M] by simp
qed

text \<open>Subtracting a multiple of another row leaves the determinant alone.\<close>

lemma det_row_elim:
  assumes "i \<noteq> k" and "i < length M" and "k < length M"
    and "length M \<le> length (M ! i)" and "length M \<le> length (M ! k)"
  shows "det (M[i := vsub (M ! i) (vscale c (M ! k))]) = det M"
proof -
  have "det (M[i := vsub (M ! i) (vscale c (M ! k))]) = det (M[i := M ! i]) - c * det (M[i := M ! k])"
    using assms by (simp add: det_row_sub)
  moreover have "det (M[i := M ! k]) = 0"
    using assms by (intro det_equal_rows' [of i k]) simp_all
  ultimately show ?thesis by simp
qed

lemma det_swap_rows:
  assumes "k \<noteq> p" and "k < length M" and "p < length M"
    and "length M \<le> length (M ! k)" and "length M \<le> length (M ! p)"
  shows "det (swap_rows k p M) = - det M"
proof -
  define a where "a = M ! k"
  define b where "b = M ! p"
  define s where "s = vsub a (vscale (- 1) b)"
  have la: "length M \<le> length a" and lb: "length M \<le> length b"
    using assms by (simp_all add: a_def b_def)
  have ls: "length M \<le> length s"
    using la lb by (simp add: s_def vsub_def vscale_def)
  have "det (M[k := s, p := s]) = 0"
    using assms by (intro det_equal_rows' [of k p]) simp_all
  moreover have "det (M[k := s, p := s]) = det (M[k := s, p := a]) + det (M[k := s, p := b])"
    using assms la lb det_row_sub [of p "M[k := s]" a b "- 1"] by (simp add: s_def)
  moreover have "det (M[k := s, p := a]) = det (M[k := b, p := a])"
  proof -
    have "det (M[p := a, k := s]) = det (M[p := a, k := a]) + det (M[p := a, k := b])"
      using assms la lb det_row_sub [of k "M[p := a]" a b "- 1"] by (simp add: s_def)
    moreover have "det (M[p := a, k := a]) = 0"
      using assms by (intro det_equal_rows' [of k p]) simp_all
    ultimately show ?thesis
      using assms by (simp add: list_update_swap [of k p])
  qed
  moreover have "det (M[k := s, p := b]) = det M"
  proof -
    have "det (M[p := b, k := s]) = det (M[p := b, k := a]) + det (M[p := b, k := b])"
      using assms la lb det_row_sub [of k "M[p := b]" a b "- 1"] by (simp add: s_def)
    moreover have "det (M[p := b, k := b]) = 0"
      using assms by (intro det_equal_rows' [of k p]) simp_all
    moreover have "M[p := b, k := a] = M"
      by (simp add: a_def b_def)
    ultimately show ?thesis
      using assms by (simp add: list_update_swap [of k p])
  qed
  moreover have "swap_rows k p M = M[k := b, p := a]"
    by (simp add: swap_rows_def a_def b_def)
  ultimately show ?thesis by simp
qed

lemma swap_rows_same: "swap_rows k k M = M"
  by (simp add: swap_rows_def)

text \<open>A first column that is the first unit vector.\<close>

lemma det_first_column_unit:
  assumes "M \<noteq> []" and "hd (M ! 0) = 1" and "\<And>i. 0 < i \<Longrightarrow> i < length M \<Longrightarrow> hd (M ! i) = 0"
  shows "det M = det (minor0 0 M)"
proof -
  have "det M = (\<Sum>i<length M. (- 1) ^ i * hd (M ! i) * det (minor0 i M))"
    using assms(1) by (rule det_sum)
  also have "\<dots> = (\<Sum>i<length M. if i = 0 then det (minor0 0 M) else 0)"
    by (rule sum.cong) (auto simp: assms)
  also have "\<dots> = det (minor0 0 M)"
    using assms(1) by (simp add: sum.delta)
  finally show ?thesis .
qed

lemma det_first_column_zero:
  assumes "M \<noteq> []" and "\<And>i. i < length M \<Longrightarrow> hd (M ! i) = 0"
  shows "det M = 0"
proof -
  have "det M = (\<Sum>i<length M. (- 1) ^ i * hd (M ! i) * det (minor0 i M))"
    using assms(1) by (rule det_sum)
  also have "\<dots> = (\<Sum>i<length M. 0)"
    by (rule sum.cong) (auto simp: assms)
  finally show ?thesis by simp
qed

section \<open>The elimination\<close>

subsection \<open>The pivot search\<close>

lemma pivot_fold:
  fixes f :: "nat \<Rightarrow> real"
  shows "fold (\<lambda>i p. if \<bar>f p\<bar> < \<bar>f i\<bar> then i else p) js p0 \<in> insert p0 (set js)
       \<and> (\<forall>i\<in>insert p0 (set js). \<bar>f i\<bar> \<le> \<bar>f (fold (\<lambda>i p. if \<bar>f p\<bar> < \<bar>f i\<bar> then i else p) js p0)\<bar>)"
proof (induction js arbitrary: p0)
  case Nil
  then show ?case by simp
next
  case (Cons j js)
  let ?g = "\<lambda>i p. if \<bar>f p\<bar> < \<bar>f i\<bar> then i else p"
  let ?p1 = "?g j p0"
  from Cons.IH [of ?p1]
  have 1: "fold ?g js ?p1 \<in> insert ?p1 (set js)"
    and 2: "\<forall>i\<in>insert ?p1 (set js). \<bar>f i\<bar> \<le> \<bar>f (fold ?g js ?p1)\<bar>"
    by blast+
  have 3: "\<bar>f p0\<bar> \<le> \<bar>f ?p1\<bar>" "\<bar>f j\<bar> \<le> \<bar>f ?p1\<bar>" by auto
  have 4: "\<bar>f ?p1\<bar> \<le> \<bar>f (fold ?g js ?p1)\<bar>" using 2 by blast
  show ?case
  proof (intro conjI ballI)
    show "fold ?g (j # js) p0 \<in> insert p0 (set (j # js))"
      using 1 by (auto split: if_splits)
  next
    fix i assume "i \<in> insert p0 (set (j # js))"
    then consider "i = p0" | "i = j" | "i \<in> set js" by auto
    then show "\<bar>f i\<bar> \<le> \<bar>f (fold ?g (j # js) p0)\<bar>"
    proof cases
      case 1 then show ?thesis using 3(1) 4 by simp
    next
      case 2 then show ?thesis using 3(2) 4 by simp
    next
      case 3 then show ?thesis using \<open>\<forall>i\<in>insert ?p1 (set js). \<bar>f i\<bar> \<le> \<bar>f (fold ?g js ?p1)\<bar>\<close> by simp
    qed
  qed
qed

lemma pivot_row_range:
  assumes "k < length M"
  shows "k \<le> pivot_row k M" and "pivot_row k M < length M"
proof -
  have "pivot_row k M \<in> insert k (set [Suc k..<length M])"
    unfolding pivot_row_def using pivot_fold [of "\<lambda>i. M ! i ! k" "[Suc k..<length M]" k] by blast
  with assms show "k \<le> pivot_row k M" and "pivot_row k M < length M" by auto
qed

lemma pivot_row_max:
  assumes "k \<le> i" and "i < length M"
  shows "\<bar>M ! i ! k\<bar> \<le> \<bar>M ! pivot_row k M ! k\<bar>"
proof -
  have "\<forall>i\<in>insert k (set [Suc k..<length M]). \<bar>M ! i ! k\<bar> \<le> \<bar>M ! pivot_row k M ! k\<bar>"
    unfolding pivot_row_def using pivot_fold [of "\<lambda>i. M ! i ! k" "[Suc k..<length M]" k] by blast
  moreover have "i \<in> insert k (set [Suc k..<length M])" using assms by auto
  ultimately show ?thesis by blast
qed

lemma pivot_zero_column:
  assumes "M ! pivot_row k M ! k = 0" and "k \<le> i" and "i < length M"
  shows "M ! i ! k = 0"
  using pivot_row_max [OF assms(2,3)] assms(1) by simp

subsection \<open>Row operations keep the solutions\<close>

lemma nth_vscale: "j < length u \<Longrightarrow> vscale c u ! j = c * u ! j"
  by (simp add: vscale_def)

lemma nth_vsub: "j < length u \<Longrightarrow> j < length v \<Longrightarrow> vsub u v ! j = u ! j - v ! j"
  by (simp add: vsub_def)

lemma length_vscale: "length (vscale c u) = length u"
  by (simp add: vscale_def)

lemma length_vsub: "length (vsub u v) = min (length u) (length v)"
  by (simp add: vsub_def)

lemma row_eq_vscale:
  assumes "length r = 2 * n" and "c \<noteq> 0"
  shows "row_eq n (vscale c r) X \<longleftrightarrow> row_eq n r X"
proof -
  have "(\<Sum>l<n. vscale c r ! l * X ! l ! j) = c * (\<Sum>l<n. r ! l * X ! l ! j)" for j
    using assms by (simp add: nth_vscale sum_distrib_left mult.assoc)
  then show ?thesis
    using assms by (simp add: row_eq_def nth_vscale)
qed

lemma row_eq_vsub:
  assumes "length r = 2 * n" and "length r' = 2 * n" and "row_eq n r' X"
  shows "row_eq n (vsub r (vscale c r')) X \<longleftrightarrow> row_eq n r X"
proof -
  have "(\<Sum>l<n. vsub r (vscale c r') ! l * X ! l ! j)
        = (\<Sum>l<n. r ! l * X ! l ! j) - c * (\<Sum>l<n. r' ! l * X ! l ! j)" for j
    using assms
    by (simp add: nth_vsub nth_vscale length_vscale sum_distrib_left sum_subtractf
        left_diff_distrib mult.assoc)
  moreover have "\<forall>j<n. (\<Sum>l<n. r' ! l * X ! l ! j) = r' ! (n + j)"
    using assms(3) by (simp add: row_eq_def)
  ultimately show ?thesis
    using assms by (auto simp: row_eq_def nth_vsub nth_vscale length_vscale)
qed

lemma length_swap_rows: "length (swap_rows k p M) = length M"
  by (simp add: swap_rows_def)

lemma nth_swap_rows:
  assumes "k < length M" and "p < length M" and "i < length M"
  shows "swap_rows k p M ! i = (if i = p then M ! k else if i = k then M ! p else M ! i)"
  using assms by (simp add: swap_rows_def nth_list_update)

lemma length_eliminate: "length (eliminate k M) = length M"
  by (simp add: eliminate_def)

lemma nth_eliminate:
  assumes "i < length M"
  shows "eliminate k M ! i = (if i = k then M ! i else vsub (M ! i) (vscale (M ! i ! k) (M ! k)))"
  using assms by (simp add: eliminate_def)

lemma aug_ok_swap_rows:
  assumes "aug_ok n A" and "k < n" and "p < n"
  shows "aug_ok n (swap_rows k p A)"
  using assms by (simp add: aug_ok_def length_swap_rows nth_swap_rows)

lemma aug_ok_scale:
  assumes "aug_ok n A" and "k < n"
  shows "aug_ok n (A[k := vscale c (A ! k)])"
  using assms by (simp add: aug_ok_def nth_list_update length_vscale)

lemma aug_ok_eliminate:
  assumes "aug_ok n A" and "k < n"
  shows "aug_ok n (eliminate k A)"
  using assms by (simp add: aug_ok_def length_eliminate nth_eliminate length_vsub length_vscale)

lemma solves_swap_rows:
  assumes "length A = n" and "k < n" and "p < n"
  shows "solves n (swap_rows k p A) X \<longleftrightarrow> solves n A X"
proof
  assume s: "solves n (swap_rows k p A) X"
  show "solves n A X"
    unfolding solves_def
  proof (intro allI impI)
    fix i assume i: "i < n"
    define i' where "i' = (if i = k then p else if i = p then k else i)"
    have "i' < n" using assms i by (simp add: i'_def)
    with s have "row_eq n (swap_rows k p A ! i') X" by (simp add: solves_def)
    moreover have "swap_rows k p A ! i' = A ! i"
      using assms i by (auto simp: i'_def nth_swap_rows)
    ultimately show "row_eq n (A ! i) X" by simp
  qed
next
  assume s: "solves n A X"
  show "solves n (swap_rows k p A) X"
    unfolding solves_def using s assms by (auto simp: solves_def nth_swap_rows)
qed

lemma solves_scale:
  assumes "aug_ok n A" and "k < n" and "c \<noteq> 0"
  shows "solves n (A[k := vscale c (A ! k)]) X \<longleftrightarrow> solves n A X"
proof -
  have len: "length (A ! k) = 2 * n" "length A = n" using assms by (simp_all add: aug_ok_def)
  have "row_eq n ((A[k := vscale c (A ! k)]) ! i) X \<longleftrightarrow> row_eq n (A ! i) X" if "i < n" for i
    using that len assms(3) by (cases "i = k") (simp_all add: row_eq_vscale)
  then show ?thesis by (simp add: solves_def)
qed

lemma solves_eliminate:
  assumes "aug_ok n A" and "k < n"
  shows "solves n (eliminate k A) X \<longleftrightarrow> solves n A X"
proof -
  have len: "length A = n" "\<And>i. i < n \<Longrightarrow> length (A ! i) = 2 * n"
    using assms by (simp_all add: aug_ok_def)
  have k: "eliminate k A ! k = A ! k" using assms len by (simp add: nth_eliminate)
  have step: "row_eq n (eliminate k A ! i) X \<longleftrightarrow> row_eq n (A ! i) X"
    if "i < n" and "row_eq n (A ! k) X" for i
    using that len assms(2) by (cases "i = k") (simp_all add: nth_eliminate row_eq_vsub)
  show ?thesis
  proof
    assume s: "solves n (eliminate k A) X"
    then have "row_eq n (A ! k) X" using assms(2) k by (auto simp: solves_def)
    with s step show "solves n A X" by (simp add: solves_def)
  next
    assume s: "solves n A X"
    then have "row_eq n (A ! k) X" using assms(2) by (simp add: solves_def)
    with s step show "solves n (eliminate k A) X" by (simp add: solves_def)
  qed
qed

subsection \<open>The left block under row operations\<close>

lemma left_block_swap_rows:
  assumes "k < length A" and "p < length A"
  shows "left_block n (swap_rows k p A) = swap_rows k p (left_block n A)"
  using assms by (simp add: left_block_def swap_rows_def map_update)

lemma take_vscale: "take n (vscale c u) = vscale c (take n u)"
  by (simp add: vscale_def take_map)

lemma take_vsub: "take n (vsub u v) = vsub (take n u) (take n v)"
  by (simp add: vsub_def take_map take_zip)

lemma left_block_scale:
  assumes "k < length A"
  shows "left_block n (A[k := vscale c (A ! k)]) = (left_block n A)[k := vscale c (left_block n A ! k)]"
  using assms by (simp add: left_block_def map_update take_vscale)

lemma left_block_eliminate:
  assumes "k < n" and "k < length A" and "\<And>i. i < length A \<Longrightarrow> n \<le> length (A ! i)"
  shows "left_block n (eliminate k A) = eliminate k (left_block n A)"
proof (rule nth_equalityI)
  show "length (left_block n (eliminate k A)) = length (eliminate k (left_block n A))"
    by (simp add: left_block_def length_eliminate)
next
  fix i assume "i < length (left_block n (eliminate k A))"
  then have i: "i < length A" by (simp add: left_block_def length_eliminate)
  then show "left_block n (eliminate k A) ! i = eliminate k (left_block n A) ! i"
    using assms by (simp add: left_block_def length_eliminate nth_eliminate take_vsub take_vscale)
qed

lemma elim_upto_0: "elim_upto 0 k M = M"
  by (simp add: elim_upto_def map_nth)

lemma elim_upto_all: "elim_upto (length M) k M = eliminate k M"
  by (simp add: elim_upto_def eliminate_def)

lemma length_elim_upto: "length (elim_upto m k M) = length M"
  by (simp add: elim_upto_def)

lemma nth_elim_upto:
  "i < length M \<Longrightarrow> elim_upto m k M ! i
     = (if i = k \<or> m \<le> i then M ! i else vsub (M ! i) (vscale (M ! i ! k) (M ! k)))"
  by (simp add: elim_upto_def)

lemma elim_upto_Suc:
  assumes "m < length M" and "k < length M"
  shows "elim_upto (Suc m) k M
         = (if m = k then elim_upto m k M
            else (elim_upto m k M)[m := vsub (elim_upto m k M ! m)
                   (vscale (elim_upto m k M ! m ! k) (elim_upto m k M ! k))])"
proof (rule nth_equalityI)
  show "length (elim_upto (Suc m) k M) = length (if m = k then elim_upto m k M
            else (elim_upto m k M)[m := vsub (elim_upto m k M ! m)
                   (vscale (elim_upto m k M ! m ! k) (elim_upto m k M ! k))])"
    by (simp add: length_elim_upto)
next
  fix i assume "i < length (elim_upto (Suc m) k M)"
  then have i: "i < length M" by (simp add: length_elim_upto)
  show "elim_upto (Suc m) k M ! i = (if m = k then elim_upto m k M
            else (elim_upto m k M)[m := vsub (elim_upto m k M ! m)
                   (vscale (elim_upto m k M ! m ! k) (elim_upto m k M ! k))]) ! i"
  proof (cases "m = k")
    case True
    with i show ?thesis by (auto simp: nth_elim_upto)
  next
    case False
    with i assms show ?thesis
      by (cases "i = m") (auto simp: nth_elim_upto length_elim_upto nth_list_update)
  qed
qed

lemma det_elim_upto:
  assumes "k < length M" and "\<And>i. i < length M \<Longrightarrow> length M \<le> length (M ! i)" and "m \<le> length M"
  shows "det (elim_upto m k M) = det M"
  using assms(3)
proof (induction m)
  case 0
  show ?case by (simp add: elim_upto_0)
next
  case (Suc m)
  then have m: "m < length M" and ih: "det (elim_upto m k M) = det M" by simp_all
  show ?case
  proof (cases "m = k")
    case True
    with m assms(1) ih show ?thesis by (simp add: elim_upto_Suc)
  next
    case False
    let ?E = "elim_upto m k M"
    have "det (?E[m := vsub (?E ! m) (vscale (?E ! m ! k) (?E ! k))]) = det ?E"
    proof (rule det_row_elim)
      show "m \<noteq> k" by (rule False)
      show "m < length ?E" "k < length ?E" using m assms(1) by (simp_all add: length_elim_upto)
      show "length ?E \<le> length (?E ! m)" using m assms(2) by (simp add: length_elim_upto nth_elim_upto)
      show "length ?E \<le> length (?E ! k)" using assms(1,2) by (simp add: length_elim_upto nth_elim_upto)
    qed
    with False m assms(1) ih show ?thesis by (simp add: elim_upto_Suc)
  qed
qed

lemma det_eliminate:
  assumes "k < length M" and "\<And>i. i < length M \<Longrightarrow> length M \<le> length (M ! i)"
  shows "det (eliminate k M) = det M"
  using det_elim_upto [OF assms, of "length M"] by (simp add: elim_upto_all)

lemma gj_step_None: "gj_step k A = None \<longleftrightarrow> A ! pivot_row k A ! k = 0"
  by (simp add: gj_step_def Let_def)

lemma gj_step_Some:
  assumes "gj_step k A = Some A'"
  shows "A ! pivot_row k A ! k \<noteq> 0"
    and "A' = eliminate k ((swap_rows k (pivot_row k A) A)
              [k := vscale (1 / (swap_rows k (pivot_row k A) A ! k ! k)) (swap_rows k (pivot_row k A) A ! k)])"
  using assms by (auto simp: gj_step_def Let_def split: if_splits)

lemma length_left_block: "length (left_block n A) = length A"
  by (simp add: left_block_def)

lemma nth_left_block: "i < length A \<Longrightarrow> left_block n A ! i = take n (A ! i)"
  by (simp add: left_block_def)

lemma left_block_rows:
  assumes "aug_ok n A" and "i < n"
  shows "length (left_block n A ! i) = n"
  using assms by (simp add: aug_ok_def nth_left_block)

lemma gj_step_aug_ok:
  assumes "aug_ok n A" and "k < n" and "gj_step k A = Some A'"
  shows "aug_ok n A'"
proof -
  have p: "pivot_row k A < n"
    using assms pivot_row_range(2) [of k A] by (simp add: aug_ok_def)
  have "aug_ok n (swap_rows k (pivot_row k A) A)"
    using assms p by (simp add: aug_ok_swap_rows)
  then show ?thesis
    using assms(2) gj_step_Some(2) [OF assms(3)] by (simp add: aug_ok_scale aug_ok_eliminate)
qed

lemma gj_step_solves:
  assumes "aug_ok n A" and "k < n" and "gj_step k A = Some A'"
  shows "solves n A' X \<longleftrightarrow> solves n A X"
proof -
  let ?p = "pivot_row k A"
  let ?A1 = "swap_rows k ?p A"
  let ?c = "1 / (?A1 ! k ! k)"
  let ?A2 = "?A1[k := vscale ?c (?A1 ! k)]"
  have len: "length A = n" using assms by (simp add: aug_ok_def)
  have p: "?p < n" using assms pivot_row_range(2) [of k A] by (simp add: aug_ok_def)
  have ok1: "aug_ok n ?A1" using assms p by (simp add: aug_ok_swap_rows)
  have ok2: "aug_ok n ?A2" using ok1 assms(2) by (simp add: aug_ok_scale)
  have "?A1 ! k = A ! ?p" using assms(2) p len by (simp add: nth_swap_rows)
  then have c: "?c \<noteq> 0" using gj_step_Some(1) [OF assms(3)] by simp
  have "solves n A' X \<longleftrightarrow> solves n ?A2 X"
    using gj_step_Some(2) [OF assms(3)] ok2 assms(2) by (simp add: solves_eliminate)
  also have "\<dots> \<longleftrightarrow> solves n ?A1 X"
    using ok1 assms(2) c by (rule solves_scale)
  also have "\<dots> \<longleftrightarrow> solves n A X"
    using len assms(2) p by (rule solves_swap_rows)
  finally show ?thesis .
qed

lemma gj_step_det:
  assumes "aug_ok n A" and "k < n" and "gj_step k A = Some A'"
  shows "\<exists>c. c \<noteq> 0 \<and> det (left_block n A') = c * det (left_block n A)"
proof -
  let ?p = "pivot_row k A"
  let ?A1 = "swap_rows k ?p A"
  let ?c = "1 / (?A1 ! k ! k)"
  let ?A2 = "?A1[k := vscale ?c (?A1 ! k)]"
  have len: "length A = n" using assms by (simp add: aug_ok_def)
  have p: "?p < n" using assms pivot_row_range(2) [of k A] by (simp add: aug_ok_def)
  have ok1: "aug_ok n ?A1" using assms p by (simp add: aug_ok_swap_rows)
  have ok2: "aug_ok n ?A2" using ok1 assms(2) by (simp add: aug_ok_scale)
  have "?A1 ! k = A ! ?p" using assms(2) p len by (simp add: nth_swap_rows)
  then have c: "?c \<noteq> 0" using gj_step_Some(1) [OF assms(3)] by simp
  have A': "A' = eliminate k ?A2" by (rule gj_step_Some(2) [OF assms(3)])
  have "left_block n A' = eliminate k (left_block n ?A2)"
    unfolding A' using assms(2) ok2 by (intro left_block_eliminate) (simp_all add: aug_ok_def)
  moreover have "det (eliminate k (left_block n ?A2)) = det (left_block n ?A2)"
    using assms(2) ok2
    by (intro det_eliminate) (simp_all add: length_left_block left_block_rows aug_ok_def)
  ultimately have 1: "det (left_block n A') = det (left_block n ?A2)" by simp
  have "left_block n ?A2 = (left_block n ?A1)[k := vscale ?c (left_block n ?A1 ! k)]"
    using assms(2) ok1 by (intro left_block_scale) (simp add: aug_ok_def)
  moreover have "det ((left_block n ?A1)[k := vscale ?c (left_block n ?A1 ! k)])
                 = ?c * det ((left_block n ?A1)[k := left_block n ?A1 ! k])"
    using assms(2) ok1
    by (intro det_row_scale) (simp_all add: length_left_block left_block_rows aug_ok_def)
  ultimately have 2: "det (left_block n ?A2) = ?c * det (left_block n ?A1)" by simp
  have 3: "left_block n ?A1 = swap_rows k ?p (left_block n A)"
    using assms(2) p len by (intro left_block_swap_rows) simp_all
  define c where "c = ?c"
  have c0: "c \<noteq> 0" using c by (simp add: c_def)
  have 12: "det (left_block n A') = c * det (left_block n ?A1)"
    using 1 2 by (simp add: c_def)
  show ?thesis
  proof (cases "k = ?p")
    case True
    then have "det (left_block n ?A1) = det (left_block n A)"
      using 3 by (simp add: swap_rows_same)
    with 12 have "det (left_block n A') = c * det (left_block n A)" by simp
    with c0 show ?thesis by blast
  next
    case False
    have "det (swap_rows k ?p (left_block n A)) = - det (left_block n A)"
      using False assms(1,2) p len
      by (intro det_swap_rows) (simp_all add: length_left_block left_block_rows)
    with 12 3 have "det (left_block n A') = (- c) * det (left_block n A)" by simp
    moreover have "- c \<noteq> 0" using c0 by simp
    ultimately show ?thesis by blast
  qed
qed

lemma gj_step_unit_cols:
  assumes "aug_ok n A" and "k < n" and "gj_step k A = Some A'" and "unit_cols k n A"
  shows "unit_cols (Suc k) n A'"
proof -
  let ?p = "pivot_row k A"
  let ?A1 = "swap_rows k ?p A"
  define piv where "piv = A ! ?p ! k"
  let ?A2 = "?A1[k := vscale (1 / piv) (?A1 ! k)]"
  have len: "length A = n" and rows: "\<And>i. i < n \<Longrightarrow> length (A ! i) = 2 * n"
    using assms by (simp_all add: aug_ok_def)
  have p: "?p < n" "k \<le> ?p"
    using assms pivot_row_range [of k A] by (simp_all add: aug_ok_def)
  have piv: "piv \<noteq> 0" using gj_step_Some(1) [OF assms(3)] by (simp add: piv_def)
  have A1k: "?A1 ! k = A ! ?p" using assms(2) p len by (simp add: nth_swap_rows)
  have A': "A' = eliminate k ?A2"
    using gj_step_Some(2) [OF assms(3)] A1k by (simp add: piv_def)
  have ok1: "aug_ok n ?A1" using assms p by (simp add: aug_ok_swap_rows)
  have ok2: "aug_ok n ?A2" using ok1 assms(2) by (simp add: aug_ok_scale)
  have rows2: "\<And>i. i < n \<Longrightarrow> length (?A2 ! i) = 2 * n" and len2: "length ?A2 = n"
    using ok2 by (simp_all add: aug_ok_def)
  have u: "\<And>i c. i < n \<Longrightarrow> c < k \<Longrightarrow> A ! i ! c = (if i = c then 1 else 0)"
    using assms(4) by (simp add: unit_cols_def)
  have u1: "?A1 ! i ! c = (if i = c then 1 else 0)" if "i < n" "c < k" for i c
    using that u [of i c] u [of k c] u [of ?p c] p assms(2) len
    by (auto simp: nth_swap_rows)
  have u2: "?A2 ! i ! c = (if i = c then 1 else 0)" if "i < n" "c < k" for i c
  proof (cases "i = k")
    case True
    have "length (?A1 ! k) = 2 * n" using ok1 assms(2) by (simp add: aug_ok_def)
    with True that assms(2) u1 [of k c] len show ?thesis
      by (simp add: length_swap_rows nth_vscale)
  next
    case False
    with that u1 [of i c] show ?thesis by simp
  qed
  have d2: "?A2 ! k ! k = 1"
  proof -
    have "length (?A1 ! k) = 2 * n" using ok1 assms(2) by (simp add: aug_ok_def)
    then show ?thesis
      using assms(2) len piv A1k by (simp add: length_swap_rows nth_vscale piv_def)
  qed
  show ?thesis
    unfolding unit_cols_def
  proof (intro allI impI)
    fix i c assume i: "i < n" and c: "c < Suc k"
    show "A' ! i ! c = (if i = c then 1 else 0)"
    proof (cases "i = k")
      case True
      with i c d2 u2 [of k c] len2 show ?thesis
        by (cases "c = k") (simp_all add: A' nth_eliminate)
    next
      case False
      have "A' ! i ! c = ?A2 ! i ! c - ?A2 ! i ! k * ?A2 ! k ! c"
        using False i c assms(2) len2 rows2 [of i] rows2 [of k]
        by (simp add: A' nth_eliminate nth_vsub nth_vscale length_vscale)
      also have "\<dots> = (if i = c then 1 else 0)"
      proof (cases "c = k")
        case True
        with False d2 show ?thesis by simp
      next
        case False
        with c have "c < k" by simp
        with i assms(2) u2 [of i c] u2 [of k c] show ?thesis by simp
      qed
      finally show ?thesis .
    qed
  qed
qed

text \<open>A matrix stuck at column \<open>k\<close> has determinant zero; the unit matrix has determinant one.\<close>

lemma hd_nth0: "0 < length xs \<Longrightarrow> hd xs = xs ! 0"
  by (cases xs) simp_all

lemma nth_minor0_0:
  assumes "Suc i < length M" and "Suc c < length (M ! Suc i)"
  shows "minor0 0 M ! i ! c = M ! Suc i ! Suc c"
  using assms by (simp add: minor0_def del_row_def nth_tl)

lemma det_stuck:
  assumes "length B = n" and "\<And>i. i < n \<Longrightarrow> length (B ! i) = n" and "k < n"
    and "\<And>i c. i < n \<Longrightarrow> c < k \<Longrightarrow> B ! i ! c = (if i = c then 1 else 0)"
    and "\<And>i. k \<le> i \<Longrightarrow> i < n \<Longrightarrow> B ! i ! k = 0"
  shows "det B = 0"
  using assms
proof (induction k arbitrary: B n)
  case 0
  have "hd (B ! i) = 0" if "i < length B" for i
    using that 0 by (simp add: hd_nth0)
  moreover have "B \<noteq> []" using 0 by auto
  ultimately show ?case by (simp add: det_first_column_zero)
next
  case (Suc k)
  have ne: "B \<noteq> []" using Suc.prems by auto
  have hd: "hd (B ! i) = B ! i ! 0" if "i < n" for i
    using that Suc.prems by (simp add: hd_nth0)
  have "det B = det (minor0 0 B)"
  proof (rule det_first_column_unit [OF ne])
    show "hd (B ! 0) = 1" using Suc.prems hd [of 0] by simp
    show "\<And>i. 0 < i \<Longrightarrow> i < length B \<Longrightarrow> hd (B ! i) = 0"
      using Suc.prems hd by simp
  qed
  moreover have "det (minor0 0 B) = 0"
  proof (rule Suc.IH [of _ "n - 1"])
    show "length (minor0 0 B) = n - 1" using Suc.prems by (simp add: length_minor0)
    show "\<And>i. i < n - 1 \<Longrightarrow> length (minor0 0 B ! i) = n - 1"
      using Suc.prems by (simp add: minor0_def del_row_def nth_tl)
    show "k < n - 1" using Suc.prems by simp
    show "\<And>i c. i < n - 1 \<Longrightarrow> c < k \<Longrightarrow> minor0 0 B ! i ! c = (if i = c then 1 else 0)"
      using Suc.prems by (simp add: nth_minor0_0)
    show "\<And>i. k \<le> i \<Longrightarrow> i < n - 1 \<Longrightarrow> minor0 0 B ! i ! k = 0"
      using Suc.prems by (simp add: nth_minor0_0)
  qed
  ultimately show ?case by simp
qed

lemma det_unit:
  assumes "length B = n" and "\<And>i. i < n \<Longrightarrow> length (B ! i) = n"
    and "\<And>i c. i < n \<Longrightarrow> c < n \<Longrightarrow> B ! i ! c = (if i = c then 1 else 0)"
  shows "det B = 1"
  using assms
proof (induction n arbitrary: B)
  case 0
  then show ?case by (simp add: det_Nil)
next
  case (Suc n)
  have ne: "B \<noteq> []" using Suc.prems by auto
  have hd: "hd (B ! i) = B ! i ! 0" if "i < Suc n" for i
    using that Suc.prems(2) [of i] by (simp add: hd_nth0)
  have "det B = det (minor0 0 B)"
  proof (rule det_first_column_unit [OF ne])
    show "hd (B ! 0) = 1" using Suc.prems(3) [of 0 0] hd [of 0] by simp
    show "\<And>i. 0 < i \<Longrightarrow> i < length B \<Longrightarrow> hd (B ! i) = 0"
      using Suc.prems hd by simp
  qed
  moreover have "det (minor0 0 B) = 1"
  proof (rule Suc.IH)
    show "length (minor0 0 B) = n" using Suc.prems by (simp add: length_minor0)
    show "\<And>i. i < n \<Longrightarrow> length (minor0 0 B ! i) = n"
      using Suc.prems by (simp add: minor0_def del_row_def nth_tl)
    show "\<And>i c. i < n \<Longrightarrow> c < n \<Longrightarrow> minor0 0 B ! i ! c = (if i = c then 1 else 0)"
      using Suc.prems by (simp add: nth_minor0_0)
  qed
  ultimately show ?case by simp
qed

lemma gj_loop_Some:
  assumes "aug_ok n A" and "k \<le> n" and "unit_cols k n A" and "gj_loop [k..<n] A = Some A'"
  shows "aug_ok n A' \<and> unit_cols n n A' \<and> (\<forall>X. solves n A' X \<longleftrightarrow> solves n A X)
       \<and> (\<exists>c. c \<noteq> 0 \<and> det (left_block n A') = c * det (left_block n A))"
  using assms
proof (induction "n - k" arbitrary: k A)
  case 0
  then have "k = n" by simp
  with 0 have "A' = A" by simp
  moreover have "\<exists>c::real. c \<noteq> 0 \<and> det (left_block n A) = c * det (left_block n A)"
    by (rule exI [of _ 1]) simp
  ultimately show ?case using 0 \<open>k = n\<close> by simp
next
  case (Suc d)
  then have k: "k < n" by simp
  then have upt: "[k..<n] = k # [Suc k..<n]" by (simp add: upt_conv_Cons)
  from Suc.prems(4) obtain A1 where
    step: "gj_step k A = Some A1" and rest: "gj_loop [Suc k..<n] A1 = Some A'"
    unfolding upt by (auto split: option.splits)
  have ok1: "aug_ok n A1" using Suc.prems(1) k step by (rule gj_step_aug_ok)
  have u1: "unit_cols (Suc k) n A1" using Suc.prems(1) k step Suc.prems(3) by (rule gj_step_unit_cols)
  have s1: "solves n A1 X \<longleftrightarrow> solves n A X" for X
    using Suc.prems(1) k step by (rule gj_step_solves)
  obtain c1 where c1: "c1 \<noteq> 0" "det (left_block n A1) = c1 * det (left_block n A)"
    using gj_step_det [OF Suc.prems(1) k step] by blast
  have d: "d = n - Suc k" using Suc.hyps(2) by simp
  have k': "Suc k \<le> n" using k by simp
  from Suc.hyps(1) [OF d ok1 k' u1 rest]
  have ok: "aug_ok n A'" and u: "unit_cols n n A'"
    and s: "\<forall>X. solves n A' X \<longleftrightarrow> solves n A1 X"
    and ex: "\<exists>c. c \<noteq> 0 \<and> det (left_block n A') = c * det (left_block n A1)"
    by blast+
  from ex obtain c2 where c2: "c2 \<noteq> 0" "det (left_block n A') = c2 * det (left_block n A1)"
    by blast
  have "c2 * c1 \<noteq> 0" "det (left_block n A') = (c2 * c1) * det (left_block n A)"
    using c1 c2 by simp_all
  then have "\<exists>c. c \<noteq> 0 \<and> det (left_block n A') = c * det (left_block n A)" by blast
  with ok u s s1 show ?case by simp
qed

lemma gj_loop_None:
  assumes "aug_ok n A" and "k \<le> n" and "unit_cols k n A" and "gj_loop [k..<n] A = None"
  shows "det (left_block n A) = 0"
  using assms
proof (induction "n - k" arbitrary: k A)
  case 0
  then show ?case by simp
next
  case (Suc d)
  then have k: "k < n" by simp
  then have upt: "[k..<n] = k # [Suc k..<n]" by (simp add: upt_conv_Cons)
  have len: "length A = n" and rows: "\<And>i. i < n \<Longrightarrow> length (A ! i) = 2 * n"
    using Suc.prems(1) by (simp_all add: aug_ok_def)
  show ?case
  proof (cases "gj_step k A")
    case None
    then have z: "A ! pivot_row k A ! k = 0" by (simp add: gj_step_None)
    show ?thesis
    proof (rule det_stuck [of _ n k])
      show "length (left_block n A) = n" using len by (simp add: length_left_block)
      show "\<And>i. i < n \<Longrightarrow> length (left_block n A ! i) = n"
        using Suc.prems(1) by (rule left_block_rows)
      show "k < n" by (rule k)
      show "\<And>i c. i < n \<Longrightarrow> c < k \<Longrightarrow> left_block n A ! i ! c = (if i = c then 1 else 0)"
        using Suc.prems(3) k len by (simp add: nth_left_block unit_cols_def)
      show "\<And>i. k \<le> i \<Longrightarrow> i < n \<Longrightarrow> left_block n A ! i ! k = 0"
        using pivot_zero_column [OF z] k len by (simp add: nth_left_block)
    qed
  next
    case (Some A1)
    with Suc.prems(4) have rest: "gj_loop [Suc k..<n] A1 = None"
      unfolding upt by simp
    have ok1: "aug_ok n A1" using Suc.prems(1) k Some by (rule gj_step_aug_ok)
    have u1: "unit_cols (Suc k) n A1" using Suc.prems(1) k Some Suc.prems(3) by (rule gj_step_unit_cols)
    obtain c1 where c1: "c1 \<noteq> 0" "det (left_block n A1) = c1 * det (left_block n A)"
      using gj_step_det [OF Suc.prems(1) k Some] by blast
    have d: "d = n - Suc k" using Suc.hyps(2) by simp
    have k': "Suc k \<le> n" using k by simp
    have "det (left_block n A1) = 0" by (rule Suc.hyps(1) [OF d ok1 k' u1 rest])
    with c1 show ?thesis by simp
  qed
qed

subsection \<open>The augmented matrix and the result\<close>

lemma is_square_rows: "is_square M \<Longrightarrow> i < length M \<Longrightarrow> length (M ! i) = length M"
  by (simp add: is_square_def list_all_length)

lemma length_eye: "length (eye n) = n"
  by (simp add: eye_def)

lemma nth_eye: "i < n \<Longrightarrow> eye n ! i = map (\<lambda>j. if i = j then 1 else 0) [0..<n]"
  by (simp add: eye_def)

lemma nth_augment:
  assumes "i < length M"
  shows "augment M ! i = M ! i @ eye (length M) ! i"
  using assms by (simp add: augment_def length_eye)

lemma aug_ok_augment:
  assumes "is_square M"
  shows "aug_ok (length M) (augment M)"
  using assms
  by (simp add: aug_ok_def nth_augment is_square_rows nth_eye) (simp add: augment_def length_eye)

lemma left_block_augment:
  assumes "is_square M"
  shows "left_block (length M) (augment M) = M"
proof (rule nth_equalityI)
  show "length (left_block (length M) (augment M)) = length M"
    by (simp add: length_left_block augment_def length_eye)
next
  fix i assume "i < length (left_block (length M) (augment M))"
  then have i: "i < length M" by (simp add: length_left_block augment_def length_eye)
  then show "left_block (length M) (augment M) ! i = M ! i"
    using assms by (simp add: nth_left_block augment_def length_eye is_square_rows)
qed

lemma solves_augment:
  assumes "is_square M"
  shows "solves (length M) (augment M) X
         \<longleftrightarrow> (\<forall>i<length M. \<forall>j<length M.
                (\<Sum>l<length M. M ! i ! l * X ! l ! j) = (if i = j then 1 else 0))"
proof -
  have "row_eq (length M) (augment M ! i) X
        \<longleftrightarrow> (\<forall>j<length M. (\<Sum>l<length M. M ! i ! l * X ! l ! j) = (if i = j then 1 else 0))"
    if i: "i < length M" for i
  proof -
    have l: "length (M ! i) = length M" using assms i by (rule is_square_rows)
    have "(\<Sum>l<length M. augment M ! i ! l * X ! l ! j) = (\<Sum>l<length M. M ! i ! l * X ! l ! j)" for j
      by (rule sum.cong) (simp_all add: i l nth_augment nth_append)
    moreover have "augment M ! i ! (length M + j) = (if i = j then 1 else 0)" if "j < length M" for j
      using that i l by (simp add: nth_augment nth_append nth_eye)
    ultimately show ?thesis by (simp add: row_eq_def)
  qed
  then show ?thesis by (simp add: solves_def)
qed

lemma ncols_square:
  assumes "is_square X" and "0 < length X"
  shows "ncols X = length X"
proof -
  obtain r rs where X: "X = r # rs" using assms(2) by (cases X) auto
  have "length (X ! 0) = length X" using assms by (rule is_square_rows)
  with X show ?thesis by (simp add: ncols_def)
qed

lemma sum_list_upt: "sum_list (map f [0..<n]) = (\<Sum>l<n. f l)" for f :: "nat \<Rightarrow> real"
  by (simp add: interv_sum_list_conv_sum_set_nat lessThan_atLeast0)

lemma nth_matmul:
  assumes "i < length A" and "j < ncols B"
  shows "matmul A B ! i ! j = (\<Sum>l<length B. A ! i ! l * B ! l ! j)"
  using assms by (simp add: matmul_def sum_list_upt)

lemma matmul_eq_eye:
  assumes "is_square X" and "length X = length M"
  shows "matmul M X = eye (length M)
         \<longleftrightarrow> (\<forall>i<length M. \<forall>j<length M.
                (\<Sum>l<length M. M ! i ! l * X ! l ! j) = (if i = j then 1 else 0))"
proof (cases "length M = 0")
  case True
  then show ?thesis by (simp add: matmul_def eye_def)
next
  case False
  then have nc: "ncols X = length M" using assms ncols_square [of X] by simp
  have len: "length (matmul M X) = length M" by (simp add: matmul_def)
  have rows: "length (matmul M X ! i) = length M" if "i < length M" for i
    using that nc by (simp add: matmul_def)
  show ?thesis
  proof
    assume eq: "matmul M X = eye (length M)"
    show "\<forall>i<length M. \<forall>j<length M.
            (\<Sum>l<length M. M ! i ! l * X ! l ! j) = (if i = j then 1 else 0)"
    proof (intro allI impI)
      fix i j assume ij: "i < length M" "j < length M"
      then have "matmul M X ! i ! j = (\<Sum>l<length M. M ! i ! l * X ! l ! j)"
        using nc assms(2) nth_matmul [of i M j X] by simp
      moreover have "eye (length M) ! i ! j = (if i = j then 1 else 0)"
        using ij by (simp add: nth_eye)
      ultimately show "(\<Sum>l<length M. M ! i ! l * X ! l ! j) = (if i = j then 1 else 0)"
        using eq by simp
    qed
  next
    assume r: "\<forall>i<length M. \<forall>j<length M.
            (\<Sum>l<length M. M ! i ! l * X ! l ! j) = (if i = j then 1 else 0)"
    show "matmul M X = eye (length M)"
    proof (rule nth_equalityI)
      show "length (matmul M X) = length (eye (length M))" by (simp add: len length_eye)
    next
      fix i assume "i < length (matmul M X)"
      then have i: "i < length M" by (simp add: len)
      show "matmul M X ! i = eye (length M) ! i"
      proof (rule nth_equalityI)
        show "length (matmul M X ! i) = length (eye (length M) ! i)"
          using i by (simp add: rows nth_eye)
      next
        fix j assume "j < length (matmul M X ! i)"
        then have j: "j < length M" using i by (simp add: rows)
        have "matmul M X ! i ! j = (\<Sum>l<length M. M ! i ! l * X ! l ! j)"
          using i j nc assms(2) nth_matmul [of i M j X] by simp
        with r i j show "matmul M X ! i ! j = eye (length M) ! i ! j"
          by (simp add: nth_eye)
      qed
    qed
  qed
qed

lemma solves_unit:
  assumes "aug_ok n A" and "unit_cols n n A" and "is_square X" and "length X = n"
  shows "solves n A X \<longleftrightarrow> X = map (drop n) A"
proof -
  have len: "length A = n" and rows: "\<And>i. i < n \<Longrightarrow> length (A ! i) = 2 * n"
    using assms(1) by (simp_all add: aug_ok_def)
  have xr: "\<And>i. i < n \<Longrightarrow> length (X ! i) = n"
    using assms(3,4) is_square_rows [of X] by simp
  have pick: "(\<Sum>l<n. A ! i ! l * X ! l ! j) = X ! i ! j" if "i < n" for i j
  proof -
    have "(\<Sum>l<n. A ! i ! l * X ! l ! j) = (\<Sum>l<n. if l = i then X ! i ! j else 0)"
      by (rule sum.cong) (use assms(2) that in \<open>auto simp: unit_cols_def\<close>)
    also have "\<dots> = X ! i ! j" using that by (simp add: sum.delta)
    finally show ?thesis .
  qed
  have "solves n A X \<longleftrightarrow> (\<forall>i<n. \<forall>j<n. X ! i ! j = A ! i ! (n + j))"
    by (simp add: solves_def row_eq_def pick)
  also have "\<dots> \<longleftrightarrow> (\<forall>i<n. X ! i = drop n (A ! i))"
  proof -
    have "(\<forall>j<n. X ! i ! j = A ! i ! (n + j)) \<longleftrightarrow> X ! i = drop n (A ! i)" if "i < n" for i
      using that xr [of i] rows [of i] by (auto simp: list_eq_iff_nth_eq)
    then show ?thesis by simp
  qed
  also have "\<dots> \<longleftrightarrow> X = map (drop n) A"
    using assms(4) len by (auto simp: list_eq_iff_nth_eq)
  finally show ?thesis .
qed

lemma unit_cols_0: "unit_cols 0 n A"
  by (simp add: unit_cols_def)

text \<open>What a successful inversion returns, and what a failed one means.\<close>

lemma linalg_inv_Inr:
  assumes "is_square M" and "linalg_inv M = Inr I"
  shows "is_square I" and "length I = length M" and "matmul M I = eye (length M)"
    and "\<And>X. is_square X \<Longrightarrow> length X = length M \<Longrightarrow> matmul M X = eye (length M) \<Longrightarrow> X = I"
    and "det M \<noteq> 0"
proof -
  let ?n = "length M"
  from assms obtain A' where loop: "gj_loop [0..<?n] (augment M) = Some A'"
    and I: "I = map (drop ?n) A'"
    by (auto simp: linalg_inv_def split: option.splits)
  have ok0: "aug_ok ?n (augment M)" using assms(1) by (rule aug_ok_augment)
  from gj_loop_Some [OF ok0 _ unit_cols_0 loop]
  have ok: "aug_ok ?n A'" and u: "unit_cols ?n ?n A'"
    and s: "\<And>X. solves ?n A' X \<longleftrightarrow> solves ?n (augment M) X"
    and ex: "\<exists>c. c \<noteq> 0 \<and> det (left_block ?n A') = c * det (left_block ?n (augment M))"
    by simp_all
  have len: "length A' = ?n" and rows: "\<And>i. i < ?n \<Longrightarrow> length (A' ! i) = 2 * ?n"
    using ok by (simp_all add: aug_ok_def)
  show lenI: "length I = ?n" using I len by simp
  show sqI: "is_square I"
    using I len rows by (simp add: is_square_def list_all_length)
  have char: "matmul M X = eye ?n \<longleftrightarrow> X = I" if "is_square X" "length X = ?n" for X
  proof -
    have "matmul M X = eye ?n \<longleftrightarrow> solves ?n (augment M) X"
      using that assms(1) by (simp add: matmul_eq_eye solves_augment)
    also have "\<dots> \<longleftrightarrow> solves ?n A' X" by (simp add: s)
    also have "\<dots> \<longleftrightarrow> X = I" unfolding I using ok u that by (rule solves_unit)
    finally show ?thesis .
  qed
  show "matmul M I = eye ?n" using char [OF sqI lenI] by simp
  show "\<And>X. is_square X \<Longrightarrow> length X = ?n \<Longrightarrow> matmul M X = eye ?n \<Longrightarrow> X = I"
    using char by simp
  have "det (left_block ?n A') = 1"
  proof (rule det_unit [of _ ?n])
    show "length (left_block ?n A') = ?n" using len by (simp add: length_left_block)
    show "\<And>i. i < ?n \<Longrightarrow> length (left_block ?n A' ! i) = ?n" using ok by (rule left_block_rows)
    show "\<And>i c. i < ?n \<Longrightarrow> c < ?n \<Longrightarrow> left_block ?n A' ! i ! c = (if i = c then 1 else 0)"
      using u len by (simp add: nth_left_block unit_cols_def)
  qed
  with ex show "det M \<noteq> 0"
    using assms(1) by (auto simp: left_block_augment)
qed

lemma linalg_inv_Inl:
  assumes "is_square M" and "linalg_inv M = Inl e"
  shows "e = SingularMatrix" and "det M = 0"
proof -
  let ?n = "length M"
  from assms have loop: "gj_loop [0..<?n] (augment M) = None" and e: "e = SingularMatrix"
    by (auto simp: linalg_inv_def split: option.splits)
  show "e = SingularMatrix" by (rule e)
  have ok0: "aug_ok ?n (augment M)" using assms(1) by (rule aug_ok_augment)
  have "det (left_block ?n (augment M)) = 0"
    using gj_loop_None [OF ok0 _ unit_cols_0 loop] by simp
  then show "det M = 0" using assms(1) by (simp add: left_block_augment)
qed

section \<open>Properties of the matrix utility\<close>

text \<open>
  C2, as the code has it. The determinant of the 4x4 transform \<open>H2\<close> equals the
  determinant of its rotation block \<open>R\<close>, and both are 1.
\<close>

theorem det_H2_eq_det_R:
  "linalg_det H2 = linalg_det R \<and> linalg_det H2 = Inr 1 \<and> linalg_det R = Inr 1"
  by code_simp

text \<open>
  C2 as the claim words it fails: neither the determinant of \<open>H2\<close> nor that of \<open>R\<close>
  is \<open>-1\<close>.
\<close>

theorem det_H2_counterexample: "linalg_det H2 \<noteq> Inr (- 1) \<and> linalg_det R \<noteq> Inr (- 1)"
  by code_simp

text \<open>
  C5. The rotation block \<open>R = diag(1, -1, -1)\<close> cut out of \<open>H2\<close> is its own inverse, and
  its determinant is 1.
\<close>

theorem R_self_inverse:
  "R = [[1, 0, 0], [0, - 1, 0], [0, 0, - 1]] \<and> linalg_inv R = Inr R \<and> linalg_det R = Inr 1"
  by code_simp

text \<open>
  C6. For \<open>R_new\<close> the inverse exists, the product of \<open>R_new\<close> with it is the 3x3 identity,
  and the determinant is \<open>-1\<close>.
\<close>

theorem R_new_inverse_det:
  "linalg_inv R_new = Inr R_new \<and> matmul R_new R_new = eye 3 \<and> linalg_det R_new = Inr (- 1)"
  by code_simp

lemma script_value:
  "script = Inr (([[1, 0, 0, 5], [0, - 1, 0, 10], [0, 0, - 1, 8], [0, 0, 0, 1]], 1), (R, 1), (R_new, - 1))"
  by code_simp

text \<open>
  C1. For every square matrix with a determinant other than zero, \<open>linalg_inv\<close> returns a
  square matrix \<open>I\<close> of the same size with \<open>M I\<close> the identity, and \<open>I\<close> is the only such
  matrix. For \<open>H2\<close> the inverse is returned and \<open>H2\<close> times it is the 4x4 identity.
\<close>

theorem linalg_inv_correct:
  "(is_square M \<and> det M \<noteq> 0 \<longrightarrow>
      (\<exists>I. linalg_inv M = Inr I \<and> is_square I \<and> length I = length M
         \<and> matmul M I = eye (length M)
         \<and> (\<forall>X. is_square X \<and> length X = length M \<and> matmul M X = eye (length M) \<longrightarrow> X = I)))
   \<and> linalg_inv H2 = Inr [[1, 0, 0, 5], [0, - 1, 0, 10], [0, 0, - 1, 8], [0, 0, 0, 1]]
   \<and> matmul H2 [[1, 0, 0, 5], [0, - 1, 0, 10], [0, 0, - 1, 8], [0, 0, 0, 1]] = eye 4"
proof (intro conjI impI)
  assume a: "is_square M \<and> det M \<noteq> 0"
  show "\<exists>I. linalg_inv M = Inr I \<and> is_square I \<and> length I = length M
         \<and> matmul M I = eye (length M)
         \<and> (\<forall>X. is_square X \<and> length X = length M \<and> matmul M X = eye (length M) \<longrightarrow> X = I)"
  proof (cases "linalg_inv M")
    case (Inl e)
    with a linalg_inv_Inl(2) [of M e] show ?thesis by simp
  next
    case (Inr I)
    with a linalg_inv_Inr(1-4) [of M I] show ?thesis by blast
  qed
next
  show "linalg_inv H2 = Inr [[1, 0, 0, 5], [0, - 1, 0, 10], [0, 0, - 1, 8], [0, 0, 0, 1]]"
    by code_simp
next
  show "matmul H2 [[1, 0, 0, 5], [0, - 1, 0, 10], [0, 0, - 1, 8], [0, 0, 0, 1]] = eye 4"
    by code_simp
qed

theorem linalg_inv_correct_witness:
  "is_square H2 \<and> det H2 \<noteq> 0
   \<and> (\<exists>I. linalg_inv H2 = Inr I \<and> is_square I \<and> length I = length H2
         \<and> matmul H2 I = eye (length H2))"
proof -
  have sq: "is_square H2" by code_simp
  have d: "det H2 \<noteq> 0" by code_simp
  from linalg_inv_correct [of H2] sq d show ?thesis by blast
qed



end
